theory Spec2Isabelle
  imports Main "HOL-Library.Sublist"
begin

section \<open>The instrumentation log processor (log\_processor\_2.py)\<close>

text \<open>
  A shallow embedding of \<^verbatim>\<open>parse_log_line\<close>, \<^verbatim>\<open>write_logs_to_file\<close>,
  \<^verbatim>\<open>process_log\<close> and \<^verbatim>\<open>convert_to_unix_timestamp\<close>.

  Modelling conventions.
  \<^item> A Python \<^verbatim>\<open>str\<close> is a \<^typ>\<open>string\<close>; every \<^typ>\<open>char\<close> stands for the code
    point of the same number (0 to 255). In that range the regular expression class
    \<^verbatim>\<open>\d\<close> is exactly the ten ASCII digits and \<^verbatim>\<open>str.strip()\<close> removes exactly the
    code points listed in \<open>is_space\<close>.
  \<^item> A Python \<^verbatim>\<open>int\<close> is an \<^typ>\<open>int\<close>. The interpreter's configurable limit on the
    number of digits of a decimal conversion is not part of the model.
  \<^item> A raised exception is a value of type \<open>error\<close>; a function that can raise returns
    \<open>error + 'a\<close>.
  \<^item> The file system is a map from paths to texts, held in the record \<open>world\<close> together
    with the wall clock. Texts are what Python's text layer delivers on a POSIX
    system: reading applies the universal-newlines translation, writing stores
    \<^verbatim>\<open>\n\<close> unchanged. Decoding and encoding of bytes are not modelled.
  \<^item> A cycle that fails returns the error alone: what it wrote before failing is not
    tracked.
  \<^item> The polling loop under \<^verbatim>\<open>__main__\<close> runs \<^verbatim>\<open>process_log\<close> once a second for ever; the
    development is about one cycle, or two in a row, and does not embed the loop.
\<close>

subsection \<open>Characters\<close>

abbreviation LF :: char where "LF \<equiv> CHR 0x0A"
abbreviation CR :: char where "CR \<equiv> CHR 0x0D"
abbreviation DQUOTE :: char where "DQUOTE \<equiv> CHR 0x22"
abbreviation BACKSLASH :: char where "BACKSLASH \<equiv> CHR 0x5C"

definition is_digit :: "char \<Rightarrow> bool" where
  \<comment> \<open>the class \<^verbatim>\<open>\d\<close>\<close>
  "is_digit c \<longleftrightarrow> c \<in> set ''0123456789''"

definition is_space :: "char \<Rightarrow> bool" where
  \<comment> \<open>what \<^verbatim>\<open>str.strip()\<close> removes: 0x09..0x0D, 0x1C..0x20, 0x85, 0xA0\<close>
  "is_space c \<longleftrightarrow>
     c \<in> set [CHR 0x09, CHR 0x0A, CHR 0x0B, CHR 0x0C, CHR 0x0D,
                CHR 0x1C, CHR 0x1D, CHR 0x1E, CHR 0x1F, CHR 0x20, CHR 0x85, CHR 0xA0]"

definition digit_val :: "char \<Rightarrow> nat" where
  "digit_val c = of_char c - 48"

definition digit_char :: "nat \<Rightarrow> char" where
  "digit_char d = char_of (48 + d)"

subsection \<open>Errors\<close>

type_synonym path = string

datatype error = ValueError | FileNotFoundError path | PermissionError path

subsection \<open>Built-in string and integer operations\<close>

text \<open>\<^verbatim>\<open>sub in s\<close>: \<open>sub\<close> occurs in \<open>s\<close> as a contiguous block.\<close>

fun contains :: "string \<Rightarrow> string \<Rightarrow> bool" where
  "contains sub [] = (sub = [])"
| "contains sub (c # cs) = (prefix sub (c # cs) \<or> contains sub cs)"

text \<open>\<^verbatim>\<open>s.split(sep)\<close> for a one-character separator: never empty, one more item than
  there are separators.\<close>

fun split :: "string \<Rightarrow> char \<Rightarrow> string list" where
  "split [] sep = [[]]"
| "split (c # cs) sep =
     (if c = sep then [] # split cs sep
      else (case split cs sep of [] \<Rightarrow> [[c]] | f # fs \<Rightarrow> (c # f) # fs))"


text \<open>\<^verbatim>\<open>s.replace(old, new)\<close>: left to right, occurrences that do not overlap; an empty
  \<open>old\<close> matches before every character and at the end.\<close>

function (sequential) str_replace :: "string \<Rightarrow> string \<Rightarrow> string \<Rightarrow> string" where
  "str_replace [] new s = new @ concat (map (\<lambda>c. c # new) s)"
| "str_replace old new [] = []"
| "str_replace old new (c # cs) =
     (if prefix old (c # cs) then new @ str_replace old new (drop (length old) (c # cs))
      else c # str_replace old new cs)"
  by pat_completeness auto
termination
  by (relation "measure (\<lambda>(old, new, s). length s)") auto

text \<open>\<^verbatim>\<open>s.strip()\<close>\<close>

definition lstrip :: "string \<Rightarrow> string" where
  "lstrip s = dropWhile is_space s"

definition rstrip :: "string \<Rightarrow> string" where
  "rstrip s = rev (dropWhile is_space (rev s))"

definition strip :: "string \<Rightarrow> string" where
  "strip s = rstrip (lstrip s)"

text \<open>\<^verbatim>\<open>int(s)\<close> on a string of decimal digits. Other strings are reported as
  \<open>ValueError\<close>: Python accepts a few more spellings (a sign, surrounding blanks,
  underscores), none of which the group \<^verbatim>\<open>(\d+)\<close> can hold.\<close>

definition decimal_value :: "string \<Rightarrow> nat" where
  "decimal_value ds = foldl (\<lambda>a c. 10 * a + digit_val c) 0 ds"

definition py_int :: "string \<Rightarrow> error + int" where
  "py_int s = (if s \<noteq> [] \<and> list_all is_digit s then Inr (int (decimal_value s))
               else Inl ValueError)"

text \<open>\<^verbatim>\<open>str(n)\<close>, which is what the f-string applies to the timestamp.\<close>

fun str_nat :: "nat \<Rightarrow> string" where
  "str_nat n = (if n < 10 then [digit_char n]
                else str_nat (n div 10) @ [digit_char (n mod 10)])"

declare str_nat.simps [simp del]

definition str_int :: "int \<Rightarrow> string" where
  "str_int i = (if i < 0 then CHR ''-'' # str_nat (nat (- i)) else str_nat (nat i))"

subsection \<open>The regular expression\<close>

text \<open>
  \<^verbatim>\<open>re.match(r'(\d+) instruments: (.+)', line)\<close> and its two groups. The match is
  anchored at the start of the line only. \<^verbatim>\<open>\d+\<close> is greedy and must be followed by
  a blank, so group 1 is the longest run of digits at the start; \<^verbatim>\<open>.\<close> matches every
  character but the line feed and nothing follows \<^verbatim>\<open>(.+)\<close>, so group 2 is the longest
  run of characters other than the line feed after the marker.
\<close>

definition marker :: string where
  "marker = '' instruments: ''"

definition re_match :: "string \<Rightarrow> (string \<times> string) option" where
  "re_match line =
     (let ds = takeWhile is_digit line;
          rest = dropWhile is_digit line
      in if ds \<noteq> [] \<and> prefix marker rest
         then (let data = takeWhile (\<lambda>c. c \<noteq> LF) (drop (length marker) rest)
               in if data \<noteq> [] then Some (ds, data) else None)
         else None)"

subsection \<open>parse\_log\_line\<close>

text \<open>The triple \<^verbatim>\<open>(None, None, None)\<close> is \<open>None\<close>; the keys are the source's strings.\<close>

definition parse_log_line :: "string \<Rightarrow> error + (string \<times> int \<times> string) option" where
  "parse_log_line line =
     (if contains ''instruments:'' line then
        (case re_match line of
           Some (timestamp, data) \<Rightarrow>
             (case py_int timestamp of
                Inl e \<Rightarrow> Inl e
              | Inr ts \<Rightarrow>
                  (let data_items = split data CHR '','' in
                   if length data_items = 11 then Inr (Some (''worker'', ts, data))
                   else if length data_items = 24 then Inr (Some (''controller'', ts, data))
                   else Inr None))
         | None \<Rightarrow> Inr None)
      else Inr None)"

subsection \<open>The world: files and the clock\<close>

record world =
  files :: "path \<rightharpoonup> string"
  unwritable :: "path \<Rightarrow> bool"
  now_year :: int

text \<open>Opening a file for writing truncates it; each \<^verbatim>\<open>write\<close> appends to it.\<close>

definition open_w :: "path \<Rightarrow> world \<Rightarrow> error + world" where
  "open_w p w = (if unwritable w p then Inl (PermissionError p)
                 else Inr (w\<lparr>files := (files w)(p \<mapsto> [])\<rparr>))"

definition fwrite :: "path \<Rightarrow> string \<Rightarrow> world \<Rightarrow> world" where
  "fwrite p s w =
     w\<lparr>files := (files w)(p \<mapsto> (case files w p of None \<Rightarrow> s | Some old \<Rightarrow> old @ s))\<rparr>"

text \<open>Reading in text mode: \<^verbatim>\<open>\r\n\<close> and \<^verbatim>\<open>\r\<close> become \<^verbatim>\<open>\n\<close>, and iterating over the
  file yields the lines with their line feed.\<close>

fun universal_newlines :: "string \<Rightarrow> string" where
  "universal_newlines [] = []"
| "universal_newlines [c] = (if c = CR then [LF] else [c])"
| "universal_newlines (c # d # cs) =
     (if c = CR then
        (if d = LF then LF # universal_newlines cs else LF # universal_newlines (d # cs))
      else c # universal_newlines (d # cs))"

fun readlines :: "string \<Rightarrow> string list" where
  "readlines [] = []"
| "readlines (c # cs) =
     (if c = LF then [LF] # readlines cs
      else (case readlines cs of [] \<Rightarrow> [[c]] | l # ls \<Rightarrow> (c # l) # ls))"

definition file_lines :: "string \<Rightarrow> string list" where
  "file_lines text = readlines (universal_newlines text)"

subsection \<open>write\_logs\_to\_file\<close>

definition WORKER_CSV_HEADER :: string where
  "WORKER_CSV_HEADER =
     ''timestamp,Chunk used,Chunk available,Slot used,Slot available,Stack used,Stack available,Garbage collections,Keys used,Modules loaded,Parser used,Floating Point'' @ [LF]"

definition CONTROLLER_CSV_HEADER :: string where
  "CONTROLLER_CSV_HEADER =
     ''timestamp,Pixels drawn,Frames drawn,Network bytes read,Network bytes written,Network sockets,Timers,Files,Poco display list used,Piu command List used,SPI flash erases,System bytes free,CPU 0,CPU 1,Chunk used,Chunk available,Slot used,Slot available,Stack used,Stack available,Garbage collections,Keys used,Modules loaded,Parser used,Floating Point'' @ [LF]"

definition write_logs_to_file :: "string list \<Rightarrow> path \<Rightarrow> string \<Rightarrow> world \<Rightarrow> error + world" where
  "write_logs_to_file logs output_file header w =
     (case open_w output_file w of
        Inl e \<Rightarrow> Inl e
      | Inr w0 \<Rightarrow>
          Inr (foldl (\<lambda>w' log. fwrite output_file (log @ [LF]) w')
                 (fwrite output_file header w0) logs))"

subsection \<open>process\_log\<close>

text \<open>The row built for one classified line.\<close>

definition log_entry :: "int \<Rightarrow> string \<Rightarrow> string" where
  "log_entry timestamp data =
     (let escaped_data = str_replace [DQUOTE] [BACKSLASH, DQUOTE] data
      in str_int timestamp @ '', '' @ strip escaped_data)"

text \<open>The loop over the lines, with the two lists it appends to.\<close>

fun process_lines ::
  "string list \<Rightarrow> string list \<times> string list \<Rightarrow> error + (string list \<times> string list)" where
  "process_lines [] (worker_logs, controller_logs) = Inr (worker_logs, controller_logs)"
| "process_lines (line # ls) (worker_logs, controller_logs) =
     (case parse_log_line line of
        Inl e \<Rightarrow> Inl e
      | Inr None \<Rightarrow> process_lines ls (worker_logs, controller_logs)
      | Inr (Some (key, timestamp, data)) \<Rightarrow>
          if key \<noteq> [] then
            (if key = ''worker''
             then process_lines ls (worker_logs @ [log_entry timestamp data], controller_logs)
             else process_lines ls (worker_logs, controller_logs @ [log_entry timestamp data]))
          else process_lines ls (worker_logs, controller_logs))"

definition process_log :: "path \<Rightarrow> path \<Rightarrow> path \<Rightarrow> world \<Rightarrow> error + world" where
  "process_log input_file worker_file controller_file w =
     (case files w input_file of
        None \<Rightarrow> Inl (FileNotFoundError input_file)
      | Some text \<Rightarrow>
          (case process_lines (file_lines text) ([], []) of
             Inl e \<Rightarrow> Inl e
           | Inr (worker_logs, controller_logs) \<Rightarrow>
               (case write_logs_to_file worker_logs worker_file WORKER_CSV_HEADER w of
                  Inl e \<Rightarrow> Inl e
                | Inr w1 \<Rightarrow>
                    write_logs_to_file controller_logs controller_file CONTROLLER_CSV_HEADER w1)))"

subsection \<open>convert\_to\_unix\_timestamp\<close>

text \<open>
  The function is defined in the source and called nowhere: its only call, in
  \<^verbatim>\<open>process_log\<close>, is commented out. \<^verbatim>\<open>datetime.strptime\<close> and \<^verbatim>\<open>datetime.timestamp\<close>
  belong to the standard library and depend on the locale and on the local time zone;
  they are parameters here. \<^verbatim>\<open>datetime.now().year\<close> reads the clock of the world, and
  \<^verbatim>\<open>replace(year=...)\<close> rejects a date that does not exist in the new year.
\<close>

record datetime =
  year :: int
  month :: int
  day :: int
  hour :: int
  minute :: int
  second :: int

definition is_leap :: "int \<Rightarrow> bool" where
  "is_leap y \<longleftrightarrow> y mod 4 = 0 \<and> (y mod 100 \<noteq> 0 \<or> y mod 400 = 0)"

definition days_in_month :: "int \<Rightarrow> int \<Rightarrow> int" where
  "days_in_month y m =
     (if m = 2 then (if is_leap y then 29 else 28)
      else if m = 4 \<or> m = 6 \<or> m = 9 \<or> m = 11 then 30 else 31)"

definition replace_year :: "datetime \<Rightarrow> int \<Rightarrow> error + datetime" where
  "replace_year dt y =
     (if 1 \<le> y \<and> y \<le> 9999 \<and> day dt \<le> days_in_month y (month dt)
      then Inr (dt\<lparr>year := y\<rparr>) else Inl ValueError)"

definition convert_to_unix_timestamp ::
  "(string \<Rightarrow> string \<Rightarrow> error + datetime) \<Rightarrow> (datetime \<Rightarrow> int) \<Rightarrow> world \<Rightarrow> string \<Rightarrow> error + int"
where
  "convert_to_unix_timestamp strptime timestamp w timestamp_str =
     (case strptime timestamp_str ''%b %d %H:%M:%S'' of
        Inl e \<Rightarrow> Inl e
      | Inr dt \<Rightarrow>
          (case replace_year dt (now_year w) of
             Inl e \<Rightarrow> Inl e
           | Inr dt' \<Rightarrow> Inr (timestamp dt')))"

subsection \<open>The pattern and the escaping in the words of the specification\<close>

text \<open>
  The pattern as the specification writes it, \<^verbatim>\<open>^\d+ instruments: (.+)$\<close>: one or more
  digits, the marker, one or more characters other than the line feed, and then the end
  of the string or its final line feed.
\<close>

definition spec_pattern_matches :: "string \<Rightarrow> bool" where
  "spec_pattern_matches line \<longleftrightarrow>
     (let ds = takeWhile is_digit line;
          rest = dropWhile is_digit line;
          body = takeWhile (\<lambda>c. c \<noteq> LF) (drop (length marker) rest);
          tail = dropWhile (\<lambda>c. c \<noteq> LF) (drop (length marker) rest)
      in ds \<noteq> [] \<and> prefix marker rest \<and> body \<noteq> [] \<and> (tail = [] \<or> tail = [LF]))"

text \<open>Escaping as the specification words it: every double quote gets a backslash in
  front, every other character stays.\<close>

definition escape_quotes :: "string \<Rightarrow> string" where
  "escape_quotes s = concat (map (\<lambda>c. if c = DQUOTE then [BACKSLASH, DQUOTE] else [c]) s)"

subsection \<open>Notions used to state the claims\<close>


definition rows_of :: "string \<Rightarrow> string list \<Rightarrow> string list" where
  "rows_of key ls =
     concat (map (\<lambda>line. case parse_log_line line of
                            Inr (Some (k, ts, data)) \<Rightarrow> if k = key then [log_entry ts data] else []
                          | _ \<Rightarrow> []) ls)"


text \<open>The text a file holds after \<^verbatim>\<open>write_logs_to_file\<close>.\<close>

definition csv_text :: "string \<Rightarrow> string list \<Rightarrow> string" where
  "csv_text header logs = header @ concat (map (\<lambda>log. log @ [LF]) logs)"

subsection \<open>Facts about the string operations\<close>









lemma re_match_intro:
  assumes "line = ds @ marker @ data @ tail" and "ds \<noteq> []" and "list_all is_digit ds"
    and "data \<noteq> []" and "LF \<notin> set data" and "tail = [] \<or> hd tail = LF"
  shows "re_match line = Some (ds, data)"
proof -
  have m: "\<not> is_digit (hd (marker @ data @ tail))"
    by (simp add: marker_def is_digit_def)
  have mne: "marker @ data @ tail \<noteq> []" by (simp add: marker_def)
  have all: "\<forall>c\<in>set ds. is_digit c" using assms(3) by (simp add: list_all_iff)
  have tw: "takeWhile is_digit line = ds"
    unfolding assms(1) using all m mne
    by (metis takeWhile_append2 takeWhile.simps(2) list.exhaust_sel append_Nil2)
  have dw: "dropWhile is_digit line = marker @ data @ tail"
    unfolding assms(1) using all m mne
    by (metis dropWhile_append2 dropWhile.simps(2) list.exhaust_sel)
  have dr: "drop (length marker) (marker @ data @ tail) = data @ tail" by simp
  have td: "takeWhile (\<lambda>c. c \<noteq> LF) (data @ tail) = data"
  proof (cases tail)
    case Nil
    then show ?thesis using assms(5) by auto
  next
    case (Cons t ts)
    with assms(6) have "t = LF" by simp
    with Cons assms(5) show ?thesis
      by (metis (mono_tags, lifting) takeWhile_append2 takeWhile.simps(2) append_Nil2)
  qed
  show ?thesis
    using assms(2,4) by (simp add: re_match_def Let_def tw dw dr td del: drop_append)
qed

lemma re_match_SomeD:
  assumes "re_match line = Some (ds, data)"
  shows "\<exists>tail. line = ds @ marker @ data @ tail \<and> ds \<noteq> [] \<and> list_all is_digit ds \<and>
           data \<noteq> [] \<and> LF \<notin> set data \<and> (tail = [] \<or> hd tail = LF)"
proof -
  let ?rest = "dropWhile is_digit line"
  let ?r = "drop (length marker) ?rest"
  from assms have ds: "ds = takeWhile is_digit line" and ne: "ds \<noteq> []"
    and pm: "prefix marker ?rest" and data: "data = takeWhile (\<lambda>c. c \<noteq> LF) ?r" and dne: "data \<noteq> []"
    by (auto simp: re_match_def Let_def split: if_splits)
  from pm have rest: "?rest = marker @ ?r" by (auto simp: prefix_def)
  have l: "line = ds @ ?rest" using ds by simp
  have r: "?r = data @ dropWhile (\<lambda>c. c \<noteq> LF) ?r" using data by simp
  have "line = ds @ marker @ data @ dropWhile (\<lambda>c. c \<noteq> LF) ?r"
    using l rest r by metis
  moreover have "list_all is_digit ds" using ds by (simp add: list_all_iff) (meson set_takeWhileD)
  moreover have "LF \<notin> set data" using data by (auto dest: set_takeWhileD)
  moreover have "dropWhile (\<lambda>c. c \<noteq> LF) ?r = [] \<or> hd (dropWhile (\<lambda>c. c \<noteq> LF) ?r) = LF"
    using hd_dropWhile [of "\<lambda>c. c \<noteq> LF" ?r] by blast
  ultimately show ?thesis using ne dne by blast
qed

lemma re_match_None_iff:
  "re_match line = None \<longleftrightarrow>
     \<not> (\<exists>ds data tail. line = ds @ marker @ data @ tail \<and> ds \<noteq> [] \<and> list_all is_digit ds \<and>
          data \<noteq> [] \<and> LF \<notin> set data)"
proof
  assume n: "re_match line = None"
  show "\<not> (\<exists>ds data tail. line = ds @ marker @ data @ tail \<and> ds \<noteq> [] \<and> list_all is_digit ds \<and>
          data \<noteq> [] \<and> LF \<notin> set data)"
  proof
    assume "\<exists>ds data tail. line = ds @ marker @ data @ tail \<and> ds \<noteq> [] \<and> list_all is_digit ds \<and>
          data \<noteq> [] \<and> LF \<notin> set data"
    then obtain ds data tail where l: "line = ds @ marker @ data @ tail" and ds: "ds \<noteq> []"
      "list_all is_digit ds" and d: "data \<noteq> []" "LF \<notin> set data" by blast
    let ?data = "data @ takeWhile (\<lambda>c. c \<noteq> LF) tail"
    let ?tail = "dropWhile (\<lambda>c. c \<noteq> LF) tail"
    have "line = ds @ marker @ ?data @ ?tail" using l by simp
    moreover have "?data \<noteq> []" using d(1) by simp
    moreover have "LF \<notin> set ?data" using d(2) by (auto dest: set_takeWhileD)
    moreover have "?tail = [] \<or> hd ?tail = LF"
      using hd_dropWhile [of "\<lambda>c. c \<noteq> LF" tail] by blast
    ultimately have "re_match line = Some (ds, ?data)" using ds by (intro re_match_intro)
    with n show False by simp
  qed
next
  assume a: "\<not> (\<exists>ds data tail. line = ds @ marker @ data @ tail \<and> ds \<noteq> [] \<and> list_all is_digit ds \<and>
          data \<noteq> [] \<and> LF \<notin> set data)"
  show "re_match line = None"
  proof (cases "re_match line")
    case None
    then show ?thesis .
  next
    case (Some p)
    obtain ds data where "p = (ds, data)" by (cases p)
    with Some re_match_SomeD [of line ds data] a show ?thesis by blast
  qed
qed


lemma py_int_digits:
  "ds \<noteq> [] \<Longrightarrow> list_all is_digit ds \<Longrightarrow> py_int ds = Inr (int (decimal_value ds))"
  by (simp add: py_int_def)

subsection \<open>Facts about parse\_log\_line\<close>




lemma parse_log_line_no_error: "\<exists>r. parse_log_line line = Inr r"
proof (cases "re_match line")
  case None
  then show ?thesis by (simp add: parse_log_line_def)
next
  case (Some p)
  obtain ds data where p: "p = (ds, data)" by (cases p)
  from re_match_SomeD [of line ds data] Some p
  have "ds \<noteq> []" and "list_all is_digit ds" by auto
  then have "py_int ds = Inr (int (decimal_value ds))" by (rule py_int_digits)
  with Some p show ?thesis by (simp add: parse_log_line_def Let_def)
qed

subsection \<open>Facts about decimal numerals\<close>

lemma is_digit_iff: "is_digit c \<longleftrightarrow> 48 \<le> (of_char c :: nat) \<and> (of_char c :: nat) \<le> 57"
proof
  assume "is_digit c"
  then show "48 \<le> (of_char c :: nat) \<and> (of_char c :: nat) \<le> 57"
    by (auto simp: is_digit_def)
next
  assume a: "48 \<le> (of_char c :: nat) \<and> (of_char c :: nat) \<le> 57"
  have "(of_char c :: nat) \<in> of_char ` set ''0123456789''" using a by simp arith
  then obtain d where "d \<in> set ''0123456789''" and "(of_char c :: nat) = of_char d" by blast
  then show "is_digit c" by (simp add: is_digit_def)
qed

lemma digit_val_digit_char: "d < 10 \<Longrightarrow> digit_val (digit_char d) = d"
  by (simp add: digit_val_def digit_char_def)


lemma digit_char_digit_val: "is_digit c \<Longrightarrow> digit_char (digit_val c) = c"
  by (simp add: is_digit_iff digit_char_def digit_val_def)

lemma digit_val_less: "is_digit c \<Longrightarrow> digit_val c < 10"
  by (auto simp: is_digit_iff digit_val_def)

lemma decimal_value_snoc: "decimal_value (ds @ [c]) = 10 * decimal_value ds + digit_val c"
  by (simp add: decimal_value_def)

lemma decimal_value_str_nat: "decimal_value (str_nat n) = n"
proof (induction n rule: str_nat.induct)
  case (1 n)
  show ?case
  proof (cases "n < 10")
    case True
    then have "str_nat n = [digit_char n]" by (simp add: str_nat.simps)
    with True show ?thesis by (simp add: decimal_value_def digit_val_digit_char)
  next
    case False
    then have s: "str_nat n = str_nat (n div 10) @ [digit_char (n mod 10)]"
      by (subst str_nat.simps) simp
    have "decimal_value (str_nat (n div 10)) = n div 10" using False by (rule "1.IH")
    then show ?thesis by (simp add: s decimal_value_snoc digit_val_digit_char)
  qed
qed


lemma str_nat_zero: "str_nat 0 = ''0''"
  by code_simp

lemma str_nat_nonempty: "str_nat n \<noteq> []"
  by (subst str_nat.simps) simp

lemma str_nat_canonical: "str_nat n = ''0'' \<or> hd (str_nat n) \<noteq> CHR ''0''"
proof (induction n rule: str_nat.induct)
  case (1 n)
  show ?case
  proof (cases "n < 10")
    case True
    then have s: "str_nat n = [digit_char n]" by (simp add: str_nat.simps)
    show ?thesis
    proof (cases "digit_char n = CHR ''0''")
      case True
      then show ?thesis using s by simp
    next
      case False
      then show ?thesis using s by simp
    qed
  next
    case False
    then have s: "str_nat n = str_nat (n div 10) @ [digit_char (n mod 10)]"
      by (subst str_nat.simps) simp
    have ih: "str_nat (n div 10) = ''0'' \<or> hd (str_nat (n div 10)) \<noteq> CHR ''0''"
      using False by (rule "1.IH")
    have "str_nat (n div 10) \<noteq> ''0''"
    proof
      assume "str_nat (n div 10) = ''0''"
      then have "decimal_value (str_nat (n div 10)) = 0"
        by (simp add: decimal_value_def digit_val_def)
      then have "n div 10 = 0" by (simp add: decimal_value_str_nat)
      with False show False by simp
    qed
    with ih have "hd (str_nat (n div 10)) \<noteq> CHR ''0''" by simp
    then show ?thesis using s str_nat_nonempty [of "n div 10"] by simp
  qed
qed

lemma digits_canonical:
  "ds \<noteq> [] \<Longrightarrow> list_all is_digit ds \<Longrightarrow>
   \<exists>zs. list_all (\<lambda>c. c = CHR ''0'') zs \<and> ds = zs @ str_nat (decimal_value ds)"
proof (induction ds rule: rev_induct)
  case Nil
  then show ?case by simp
next
  case (snoc c xs)
  from snoc.prems have c: "is_digit c" and xs: "list_all is_digit xs" by simp_all
  have v: "decimal_value (xs @ [c]) = 10 * decimal_value xs + digit_val c"
    by (rule decimal_value_snoc)
  show ?case
  proof (cases "xs = []")
    case True
    have "str_nat (digit_val c) = [c]"
      using digit_val_less [OF c] by (simp add: str_nat.simps digit_char_digit_val c)
    then have "xs @ [c] = [] @ str_nat (decimal_value (xs @ [c]))"
      using True by (simp add: decimal_value_def)
    moreover have "list_all (\<lambda>c. c = CHR ''0'') ([] :: string)" by simp
    ultimately show ?thesis by blast
  next
    case False
    with snoc.IH xs obtain zs where zs: "list_all (\<lambda>c. c = CHR ''0'') zs"
      and eq: "xs = zs @ str_nat (decimal_value xs)" by blast
    show ?thesis
    proof (cases "decimal_value xs = 0")
      case True
      then have "str_nat (decimal_value xs) = ''0''" by (simp add: str_nat_zero)
      with eq have x0: "xs = zs @ ''0''" by simp
      then have all0: "list_all (\<lambda>c. c = CHR ''0'') xs" using zs by simp
      have "str_nat (decimal_value (xs @ [c])) = [c]"
        using True digit_val_less [OF c] by (simp add: v str_nat.simps digit_char_digit_val c)
      then have "xs @ [c] = xs @ str_nat (decimal_value (xs @ [c]))" by simp
      with all0 show ?thesis by blast
    next
      case False
      then have ge: "\<not> decimal_value (xs @ [c]) < 10" by (simp add: v)
      have dv: "decimal_value (xs @ [c]) div 10 = decimal_value xs"
        using digit_val_less [OF c] by (simp add: v)
      have md: "decimal_value (xs @ [c]) mod 10 = digit_val c"
        using digit_val_less [OF c] by (simp add: v)
      have "str_nat (decimal_value (xs @ [c])) = str_nat (decimal_value xs) @ [c]"
        using ge by (subst str_nat.simps) (simp add: dv md digit_char_digit_val c)
      then have "xs @ [c] = zs @ str_nat (decimal_value (xs @ [c]))" using eq by simp
      with zs show ?thesis by blast
    qed
  qed
qed

lemma str_int_nat: "str_int (int n) = str_nat n"
  by (simp add: str_int_def)


subsection \<open>Facts about escaping and stripping\<close>

lemma str_replace_single:
  "str_replace [q] new s = concat (map (\<lambda>c. if c = q then new else [c]) s)"
  by (induction s) auto

lemma str_replace_quotes: "str_replace [DQUOTE] [BACKSLASH, DQUOTE] s = escape_quotes s"
  by (simp add: str_replace_single escape_quotes_def)

lemma escape_quotes_append: "escape_quotes (a @ b) = escape_quotes a @ escape_quotes b"
  by (simp add: escape_quotes_def)














subsection \<open>Facts about the classification and the rows\<close>

lemma parse_log_line_SomeD:
  assumes "parse_log_line line = Inr (Some (key, ts, data))"
  shows "\<exists>ds. re_match line = Some (ds, data) \<and> ts = int (decimal_value ds) \<and>
           ((key = ''worker'' \<and> length (split data CHR '','') = 11) \<or>
            (key = ''controller'' \<and> length (split data CHR '','') = 24))"
proof (cases "re_match line")
  case None
  with assms show ?thesis by (simp add: parse_log_line_def split: if_splits)
next
  case (Some p)
  obtain ds d where p: "p = (ds, d)" by (cases p)
  from re_match_SomeD [of line ds d] Some p
  have "ds \<noteq> []" and "list_all is_digit ds" by auto
  then have i: "py_int ds = Inr (int (decimal_value ds))" by (rule py_int_digits)
  from assms Some p i show ?thesis
    by (auto simp: parse_log_line_def Let_def split: if_splits)
qed

lemma log_entry_eq: "log_entry ts data = str_int ts @ '', '' @ strip (escape_quotes data)"
  by (simp add: log_entry_def str_replace_quotes)

lemma rows_of_Cons:
  "rows_of key (line # ls) =
     (case parse_log_line line of
        Inr (Some (k, ts, data)) \<Rightarrow> if k = key then [log_entry ts data] else []
      | _ \<Rightarrow> []) @ rows_of key ls"
  by (simp add: rows_of_def)

lemma process_lines_rows:
  "process_lines ls (wl, cl) = Inr (wl @ rows_of ''worker'' ls, cl @ rows_of ''controller'' ls)"
proof (induction ls arbitrary: wl cl)
  case Nil
  then show ?case by (simp add: rows_of_def)
next
  case (Cons line ls)
  obtain r where r: "parse_log_line line = Inr r" using parse_log_line_no_error by blast
  show ?case
  proof (cases r)
    case None
    with r Cons.IH show ?thesis by (simp add: rows_of_Cons)
  next
    case (Some t)
    obtain key ts data where t: "t = (key, ts, data)" by (cases t)
    from parse_log_line_SomeD [of line key ts data] r Some t
    have "key = ''worker'' \<or> key = ''controller''" by auto
    then show ?thesis
    proof
      assume "key = ''worker''"
      with r Some t Cons.IH show ?thesis by (simp add: rows_of_Cons)
    next
      assume "key = ''controller''"
      with r Some t Cons.IH show ?thesis by (simp add: rows_of_Cons)
    qed
  qed
qed




subsection \<open>Facts about lines and files\<close>



lemma readlines_shape: "l \<in> set (readlines s) \<Longrightarrow> l \<noteq> [] \<and> LF \<notin> set (butlast l) \<and> set l \<subseteq> set s"
proof (induction s arbitrary: l)
  case Nil
  then show ?case by simp
next
  case (Cons c cs)
  show ?case
  proof (cases "c = LF")
    case True
    with Cons show ?thesis by auto
  next
    case False
    show ?thesis
    proof (cases "readlines cs")
      case Nil
      with False Cons.prems show ?thesis by simp
    next
      case (Cons k ks)
      with False Cons.prems have "l = c # k \<or> l \<in> set ks" by simp
      then show ?thesis
      proof
        assume l: "l = c # k"
        have "k \<noteq> [] \<and> LF \<notin> set (butlast k) \<and> set k \<subseteq> set cs"
          using Cons.IH [of k] Cons by simp
        with l False show ?thesis by auto
      next
        assume "l \<in> set ks"
        then have "l \<in> set (readlines cs)" using Cons by simp
        then show ?thesis using Cons.IH [of l] by auto
      qed
    qed
  qed
qed

lemma universal_newlines_no_CR: "CR \<notin> set (universal_newlines s)"
  by (induction s rule: universal_newlines.induct) auto


lemma file_lines_shape:
  "l \<in> set (file_lines content) \<Longrightarrow> l \<noteq> [] \<and> LF \<notin> set (butlast l) \<and> CR \<notin> set l"
  using readlines_shape [of l "universal_newlines content"] universal_newlines_no_CR [of content]
  by (auto simp: file_lines_def)

lemma fwrite_foldl:
  "files w0 p = Some old \<Longrightarrow>
   foldl (\<lambda>w' log. fwrite p (log @ [LF]) w') w0 logs =
     w0\<lparr>files := (files w0)(p \<mapsto> old @ concat (map (\<lambda>log. log @ [LF]) logs))\<rparr>"
proof (induction logs arbitrary: w0 old)
  case Nil
  then show ?case by (simp add: fun_upd_idem)
next
  case (Cons log logs)
  obtain f u n where w0: "w0 = \<lparr>files = f, unwritable = u, now_year = n\<rparr>" by (cases w0)
  let ?w1 = "\<lparr>files = f(p \<mapsto> old @ log @ [LF]), unwritable = u, now_year = n\<rparr>"
  have w1: "fwrite p (log @ [LF]) w0 = ?w1" using Cons.prems by (simp add: fwrite_def w0)
  have "files ?w1 p = Some (old @ log @ [LF])" by simp
  from Cons.IH [OF this] show ?case by (simp add: w1) (simp add: w0 fun_eq_iff)
qed

lemma write_logs_to_file_eq:
  "write_logs_to_file logs p header w =
     (if unwritable w p then Inl (PermissionError p)
      else Inr (w\<lparr>files := (files w)(p \<mapsto> csv_text header logs)\<rparr>))"
proof (cases "unwritable w p")
  case True
  then show ?thesis by (simp add: write_logs_to_file_def open_w_def)
next
  case False
  let ?w0 = "w\<lparr>files := (files w)(p \<mapsto> [])\<rparr>"
  have "files (fwrite p header ?w0) p = Some header" by (simp add: fwrite_def)
  from fwrite_foldl [OF this, of logs] False show ?thesis
    by (simp add: write_logs_to_file_def open_w_def fwrite_def csv_text_def)
qed

lemma process_log_eq:
  "process_log inp wfile cfile w =
     (case files w inp of
        None \<Rightarrow> Inl (FileNotFoundError inp)
      | Some text \<Rightarrow>
          if unwritable w wfile then Inl (PermissionError wfile)
          else if unwritable w cfile then Inl (PermissionError cfile)
          else Inr (w\<lparr>files := (files w)
                 (wfile \<mapsto> csv_text WORKER_CSV_HEADER (rows_of ''worker'' (file_lines text)),
                  cfile \<mapsto> csv_text CONTROLLER_CSV_HEADER (rows_of ''controller'' (file_lines text)))\<rparr>))"
  by (simp add: process_log_def process_lines_rows write_logs_to_file_eq split: option.splits)

subsection \<open>The pattern of the specification on lines of a file\<close>

lemma spec_pattern_matches_line:
  assumes "re_match line = Some (ds, data)" and "LF \<notin> set (butlast line)"
  shows "spec_pattern_matches line"
proof -
  let ?r = "drop (length marker) (dropWhile is_digit line)"
  let ?tail = "dropWhile (\<lambda>c. c \<noteq> LF) ?r"
  from assms(1) have ds: "takeWhile is_digit line \<noteq> []"
    and pm: "prefix marker (dropWhile is_digit line)"
    and dne: "takeWhile (\<lambda>c. c \<noteq> LF) ?r \<noteq> []"
    by (auto simp: re_match_def Let_def split: if_splits)
  have "?tail = [] \<or> ?tail = [LF]"
  proof (cases ?tail)
    case Nil
    then show ?thesis by simp
  next
    case (Cons t ts)
    then have t: "t = LF" using hd_dropWhile [of "\<lambda>c. c \<noteq> LF" ?r] by auto
    define pre where "pre = takeWhile is_digit line @ marker @ takeWhile (\<lambda>c. c \<noteq> LF) ?r"
    have "line = takeWhile is_digit line @ dropWhile is_digit line" by simp
    also have "dropWhile is_digit line = marker @ ?r" using pm by (auto simp: prefix_def)
    also have "?r = takeWhile (\<lambda>c. c \<noteq> LF) ?r @ ?tail" by simp
    finally have "line = pre @ ?tail" by (simp add: pre_def)
    then have l: "line = pre @ LF # ts" using Cons t by simp
    have "ts = []"
    proof (rule ccontr)
      assume "ts \<noteq> []"
      then have "butlast line = pre @ LF # butlast ts" using l by (simp add: butlast_append)
      with assms(2) show False by simp
    qed
    with Cons t show ?thesis by simp
  qed
  with ds pm dne show ?thesis by (simp add: spec_pattern_matches_def Let_def)
qed

lemma spec_pattern_matches_iff:
  "spec_pattern_matches line \<longleftrightarrow>
     (\<exists>ds body. ds \<noteq> [] \<and> list_all is_digit ds \<and> body \<noteq> [] \<and> LF \<notin> set body \<and>
        (line = ds @ marker @ body \<or> line = ds @ marker @ body @ [LF]))"
proof
  assume a: "spec_pattern_matches line"
  let ?ds = "takeWhile is_digit line"
  let ?r = "drop (length marker) (dropWhile is_digit line)"
  let ?body = "takeWhile (\<lambda>c. c \<noteq> LF) ?r"
  let ?tail = "dropWhile (\<lambda>c. c \<noteq> LF) ?r"
  from a have ds: "?ds \<noteq> []" and pm: "prefix marker (dropWhile is_digit line)"
    and b: "?body \<noteq> []" and t: "?tail = [] \<or> ?tail = [LF]"
    by (simp_all add: spec_pattern_matches_def Let_def)
  have "line = ?ds @ dropWhile is_digit line" by simp
  also have "dropWhile is_digit line = marker @ ?r" using pm by (auto simp: prefix_def)
  also have "?r = ?body @ ?tail" by simp
  finally have l: "line = ?ds @ marker @ ?body @ ?tail" .
  have d: "list_all is_digit ?ds" by (simp add: list_all_iff) (meson set_takeWhileD)
  have n: "LF \<notin> set ?body" by (auto dest: set_takeWhileD)
  from t show "\<exists>ds body. ds \<noteq> [] \<and> list_all is_digit ds \<and> body \<noteq> [] \<and> LF \<notin> set body \<and>
        (line = ds @ marker @ body \<or> line = ds @ marker @ body @ [LF])"
  proof
    assume "?tail = []"
    with l have "line = ?ds @ marker @ ?body" by simp
    with ds d b n show ?thesis by blast
  next
    assume "?tail = [LF]"
    with l have "line = ?ds @ marker @ ?body @ [LF]" by simp
    with ds d b n show ?thesis by blast
  qed
next
  assume "\<exists>ds body. ds \<noteq> [] \<and> list_all is_digit ds \<and> body \<noteq> [] \<and> LF \<notin> set body \<and>
        (line = ds @ marker @ body \<or> line = ds @ marker @ body @ [LF])"
  then obtain ds body where ds: "ds \<noteq> []" "list_all is_digit ds" and b: "body \<noteq> []" "LF \<notin> set body"
    and l: "line = ds @ marker @ body \<or> line = ds @ marker @ body @ [LF]" by blast
  from l obtain tail where l': "line = ds @ marker @ body @ tail" and t: "tail = [] \<or> tail = [LF]"
    by auto
  from t have t': "tail = [] \<or> hd tail = LF" by auto
  have m: "re_match line = Some (ds, body)" using l' ds b t' by (rule re_match_intro)
  have "LF \<notin> set (butlast line)"
  proof -
    have "\<not> is_digit LF" by (simp add: is_digit_def)
    then have "LF \<notin> set ds" using ds(2) unfolding list_all_iff by blast
    moreover have "LF \<notin> set marker" by (simp add: marker_def)
    ultimately have n: "LF \<notin> set (ds @ marker @ body)" using b(2) by simp
    from t show ?thesis
    proof
      assume "tail = []"
      then have "butlast line = butlast (ds @ marker @ body)" using l' by simp
      then show ?thesis using n by (metis in_set_butlastD)
    next
      assume "tail = [LF]"
      then have "line = (ds @ marker @ body) @ [LF]" using l' by simp
      then have "butlast line = ds @ marker @ body" by (simp only: butlast_snoc)
      then show ?thesis using n by simp
    qed
  qed
  with m show "spec_pattern_matches line" by (rule spec_pattern_matches_line)
qed

subsection \<open>Facts about the items of a row\<close>






lemma escape_quotes_Cons:
  "escape_quotes (c # s) = (if c = DQUOTE then [BACKSLASH, DQUOTE] else [c]) @ escape_quotes s"
  by (simp add: escape_quotes_def)

lemma lstrip_escape_quotes: "lstrip (escape_quotes s) = escape_quotes (lstrip s)"
proof (induction s)
  case Nil
  then show ?case by (simp add: lstrip_def escape_quotes_def)
next
  case (Cons c s)
  show ?case
  proof (cases "is_space c")
    case True
    then have "c \<noteq> DQUOTE" by (auto simp: is_space_def)
    with True Cons.IH show ?thesis by (simp add: lstrip_def escape_quotes_Cons)
  next
    case False
    have "\<not> is_space BACKSLASH" by (simp add: is_space_def)
    with False show ?thesis by (simp add: lstrip_def escape_quotes_Cons)
  qed
qed

lemma rstrip_snoc: "rstrip (s @ [c]) = (if is_space c then rstrip s else s @ [c])"
  by (simp add: rstrip_def)

lemma rstrip_escape_quotes: "rstrip (escape_quotes s) = escape_quotes (rstrip s)"
proof (induction s rule: rev_induct)
  case Nil
  then show ?case by (simp add: rstrip_def escape_quotes_def)
next
  case (snoc c s)
  show ?case
  proof (cases "is_space c")
    case True
    then have "c \<noteq> DQUOTE" by (auto simp: is_space_def)
    then have "escape_quotes (s @ [c]) = escape_quotes s @ [c]"
      by (simp add: escape_quotes_append escape_quotes_Cons) (simp add: escape_quotes_def)
    with True snoc.IH show ?thesis by (simp add: rstrip_snoc)
  next
    case False
    show ?thesis
    proof (cases "c = DQUOTE")
      case True
      have q: "\<not> is_space DQUOTE" by (simp add: is_space_def)
      have "escape_quotes (s @ [c]) = (escape_quotes s @ [BACKSLASH]) @ [DQUOTE]"
        using True by (simp add: escape_quotes_append) (simp add: escape_quotes_def)
      then have "rstrip (escape_quotes (s @ [c])) = escape_quotes (s @ [c])"
        using q by (simp only: rstrip_snoc if_False)
      with False show ?thesis by (simp add: rstrip_snoc)
    next
      case ne: False
      then have "escape_quotes (s @ [c]) = escape_quotes s @ [c]"
        by (simp add: escape_quotes_append) (simp add: escape_quotes_def)
      then have "rstrip (escape_quotes (s @ [c])) = escape_quotes (s @ [c])"
        using False by (simp only: rstrip_snoc if_False)
      with False show ?thesis by (simp add: rstrip_snoc)
    qed
  qed
qed

lemma strip_escape_quotes: "strip (escape_quotes s) = escape_quotes (strip s)"
  by (simp add: strip_def lstrip_escape_quotes rstrip_escape_quotes)

lemma count_escape_quotes: "c \<noteq> BACKSLASH \<Longrightarrow> count_list (escape_quotes s) c = count_list s c"
  by (induction s) (auto simp: escape_quotes_Cons, simp_all add: escape_quotes_def)

lemma count_lstrip: "\<not> is_space c \<Longrightarrow> count_list (lstrip s) c = count_list s c"
  by (induction s) (auto simp: lstrip_def)

lemma count_rstrip: "\<not> is_space c \<Longrightarrow> count_list (rstrip s) c = count_list s c"
  by (induction s rule: rev_induct) (auto simp: rstrip_snoc, simp add: rstrip_def)

lemma count_strip: "\<not> is_space c \<Longrightarrow> count_list (strip s) c = count_list s c"
  by (simp add: strip_def count_lstrip count_rstrip)

subsection \<open>Facts about the written files\<close>






subsection \<open>Facts about trailing white space\<close>



section \<open>The claims\<close>





text \<open>
  Claim C3. A line without the substring \<^verbatim>\<open>instruments:\<close> gets no match; so does a line of
  the input file that does not match the pattern \<^verbatim>\<open>^\d+ instruments: (.+)$\<close> of the
  specification, for instance because its integer prefix is malformed. A line without a
  match is skipped by the loop: no row is added to either list and no error is raised
  (the result is \<open>Inr\<close>, never \<open>Inl\<close>).
\<close>

theorem parse_log_line_no_match:
  "(\<not> contains ''instruments:'' line \<longrightarrow> parse_log_line line = Inr None) \<and>
   (line \<in> set (file_lines content) \<and> \<not> spec_pattern_matches line \<longrightarrow>
      parse_log_line line = Inr None) \<and>
   (parse_log_line line = Inr None \<longrightarrow>
      process_lines (line # ls) (worker_logs, controller_logs) =
        process_lines ls (worker_logs, controller_logs))"
proof (intro conjI impI)
  assume "\<not> contains ''instruments:'' line"
  then show "parse_log_line line = Inr None" by (simp add: parse_log_line_def)
next
  assume a: "line \<in> set (file_lines content) \<and> \<not> spec_pattern_matches line"
  then have nl: "LF \<notin> set (butlast line)" using file_lines_shape [of line content] by simp
  have "re_match line = None"
  proof (cases "re_match line")
    case None
    then show ?thesis .
  next
    case (Some p)
    obtain ds data where "p = (ds, data)" by (cases p)
    with Some have "re_match line = Some (ds, data)" by simp
    then have "spec_pattern_matches line" using nl by (rule spec_pattern_matches_line)
    with a show ?thesis by simp
  qed
  then show "parse_log_line line = Inr None" by (simp add: parse_log_line_def)
next
  assume "parse_log_line line = Inr None"
  then show "process_lines (line # ls) (worker_logs, controller_logs) =
        process_lines ls (worker_logs, controller_logs)" by simp
qed

theorem parse_log_line_no_match_witness:
  "\<not> contains ''instruments:'' ''wifi connected'' \<and>
   parse_log_line ''wifi connected'' = Inr None \<and>
   (''x7 instruments: 4,8,15,16,23,42,0,0,1,2,3'' @ [LF]) \<in>
      set (file_lines (''boot'' @ [CR, LF] @ ''x7 instruments: 4,8,15,16,23,42,0,0,1,2,3'' @ [LF])) \<and>
   \<not> spec_pattern_matches (''x7 instruments: 4,8,15,16,23,42,0,0,1,2,3'' @ [LF]) \<and>
   parse_log_line (''x7 instruments: 4,8,15,16,23,42,0,0,1,2,3'' @ [LF]) = Inr None \<and>
   process_lines [''wifi connected'', ''9 instruments: 4,8,15,16,23,42,0,0,1,2,3''] ([], []) =
     process_lines [''9 instruments: 4,8,15,16,23,42,0,0,1,2,3''] ([], [])"
proof -
  have a: "\<not> contains ''instruments:'' ''wifi connected''" by code_simp
  have b: "(''x7 instruments: 4,8,15,16,23,42,0,0,1,2,3'' @ [LF]) \<in>
      set (file_lines (''boot'' @ [CR, LF] @ ''x7 instruments: 4,8,15,16,23,42,0,0,1,2,3'' @ [LF]))"
    by code_simp
  have c: "\<not> spec_pattern_matches (''x7 instruments: 4,8,15,16,23,42,0,0,1,2,3'' @ [LF])"
    by code_simp
  note t1 = parse_log_line_no_match [of "''wifi connected''" "[]"
      "[''9 instruments: 4,8,15,16,23,42,0,0,1,2,3'']" "[]" "[]"]
  note t2 = parse_log_line_no_match [of "''x7 instruments: 4,8,15,16,23,42,0,0,1,2,3'' @ [LF]"
      "''boot'' @ [CR, LF] @ ''x7 instruments: 4,8,15,16,23,42,0,0,1,2,3'' @ [LF]" "[]" "[]" "[]"]
  from t1 a have d: "parse_log_line ''wifi connected'' = Inr None" by blast
  from t1 d have e: "process_lines [''wifi connected'', ''9 instruments: 4,8,15,16,23,42,0,0,1,2,3''] ([], []) =
     process_lines [''9 instruments: 4,8,15,16,23,42,0,0,1,2,3''] ([], [])" by blast
  from t2 b c have f: "parse_log_line (''x7 instruments: 4,8,15,16,23,42,0,0,1,2,3'' @ [LF]) = Inr None"
    by blast
  from a b c d e f show ?thesis by blast
qed



text \<open>
  Claim C5. Before the row is built every double quote of the payload gets one backslash
  in front, by \<^verbatim>\<open>data.replace('"', r'\"')\<close>; nothing else is changed by the escaping, so the
  row is the timestamp, a comma, a blank and the stripped payload with its quotes
  escaped. An item \<^verbatim>\<open>a"b\<close> comes out as \<^verbatim>\<open>a\"b\<close>. Commas are left as they are, also
  between quotes: the payload that starts with \<^verbatim>\<open>"a,b"\<close> is counted and written as
  starting with the two items \<^verbatim>\<open>"a\<close> and \<^verbatim>\<open>b"\<close>.
\<close>

theorem quotes_escaped:
  "str_replace [DQUOTE] [BACKSLASH, DQUOTE] s =
     concat (map (\<lambda>c. if c = DQUOTE then [BACKSLASH, DQUOTE] else [c]) s) \<and>
   (parse_log_line line = Inr (Some (key, ts, data)) \<longrightarrow>
      log_entry ts data = str_int ts @ '', '' @ escape_quotes (strip data) \<and>
      count_list (escape_quotes (strip data)) CHR '','' = count_list data CHR '','') \<and>
   process_lines [''5 instruments: a'' @ [DQUOTE] @ ''b,2,3,4,5,6,7,8,9,10,11''] ([], []) =
     Inr ([''5, a'' @ [BACKSLASH, DQUOTE] @ ''b,2,3,4,5,6,7,8,9,10,11''], []) \<and>
   process_lines [''6 instruments: '' @ [DQUOTE] @ ''a,b'' @ [DQUOTE] @ '',3,4,5,6,7,8,9,10,11''] ([], []) =
     Inr ([''6, '' @ [BACKSLASH, DQUOTE] @ ''a,b'' @ [BACKSLASH, DQUOTE] @ '',3,4,5,6,7,8,9,10,11''], [])"
proof (intro conjI impI)
  show "str_replace [DQUOTE] [BACKSLASH, DQUOTE] s =
     concat (map (\<lambda>c. if c = DQUOTE then [BACKSLASH, DQUOTE] else [c]) s)"
    by (rule str_replace_single)
next
  assume p: "parse_log_line line = Inr (Some (key, ts, data))"
  show "log_entry ts data = str_int ts @ '', '' @ escape_quotes (strip data)"
    by (simp add: log_entry_eq strip_escape_quotes)
  have "count_list (strip data) CHR '','' = count_list data CHR '',''"
    by (rule count_strip) (simp add: is_space_def)
  then show "count_list (escape_quotes (strip data)) CHR '','' = count_list data CHR '',''"
    by (simp add: count_escape_quotes)
next
  show "process_lines [''5 instruments: a'' @ [DQUOTE] @ ''b,2,3,4,5,6,7,8,9,10,11''] ([], []) =
     Inr ([''5, a'' @ [BACKSLASH, DQUOTE] @ ''b,2,3,4,5,6,7,8,9,10,11''], [])"
    by code_simp
next
  show "process_lines [''6 instruments: '' @ [DQUOTE] @ ''a,b'' @ [DQUOTE] @ '',3,4,5,6,7,8,9,10,11''] ([], []) =
     Inr ([''6, '' @ [BACKSLASH, DQUOTE] @ ''a,b'' @ [BACKSLASH, DQUOTE] @ '',3,4,5,6,7,8,9,10,11''], [])"
    by code_simp
qed

theorem quotes_escaped_witness:
  "parse_log_line (''8 instruments: '' @ [DQUOTE] @ ''on'' @ [DQUOTE] @ '' ,2,3,4,5,6,7,8,9,10,11 '') =
     Inr (Some (''worker'', 8, [DQUOTE] @ ''on'' @ [DQUOTE] @ '' ,2,3,4,5,6,7,8,9,10,11 '')) \<and>
   log_entry 8 ([DQUOTE] @ ''on'' @ [DQUOTE] @ '' ,2,3,4,5,6,7,8,9,10,11 '') =
     ''8, '' @ [BACKSLASH, DQUOTE] @ ''on'' @ [BACKSLASH, DQUOTE] @ '' ,2,3,4,5,6,7,8,9,10,11''"
proof -
  have p: "parse_log_line (''8 instruments: '' @ [DQUOTE] @ ''on'' @ [DQUOTE] @ '' ,2,3,4,5,6,7,8,9,10,11 '') =
     Inr (Some (''worker'', 8, [DQUOTE] @ ''on'' @ [DQUOTE] @ '' ,2,3,4,5,6,7,8,9,10,11 ''))"
    by code_simp
  have e: "str_int 8 @ '', '' @ escape_quotes (strip ([DQUOTE] @ ''on'' @ [DQUOTE] @ '' ,2,3,4,5,6,7,8,9,10,11 '')) =
     ''8, '' @ [BACKSLASH, DQUOTE] @ ''on'' @ [BACKSLASH, DQUOTE] @ '' ,2,3,4,5,6,7,8,9,10,11''"
    by code_simp
  from quotes_escaped [of "[]"
      "''8 instruments: '' @ [DQUOTE] @ ''on'' @ [DQUOTE] @ '' ,2,3,4,5,6,7,8,9,10,11 ''"
      "''worker''" 8 "[DQUOTE] @ ''on'' @ [DQUOTE] @ '' ,2,3,4,5,6,7,8,9,10,11 ''"] p
  have "log_entry 8 ([DQUOTE] @ ''on'' @ [DQUOTE] @ '' ,2,3,4,5,6,7,8,9,10,11 '') =
      str_int 8 @ '', '' @ escape_quotes (strip ([DQUOTE] @ ''on'' @ [DQUOTE] @ '' ,2,3,4,5,6,7,8,9,10,11 ''))"
    by blast
  from this e have "log_entry 8 ([DQUOTE] @ ''on'' @ [DQUOTE] @ '' ,2,3,4,5,6,7,8,9,10,11 '') =
     ''8, '' @ [BACKSLASH, DQUOTE] @ ''on'' @ [BACKSLASH, DQUOTE] @ '' ,2,3,4,5,6,7,8,9,10,11''"
    by (rule trans)
  with p show ?thesis by blast
qed



text \<open>
  Claim C7. A cycle reads nothing but the input file: from any world in which the input
  file has the same text (and the two destinations can be opened) it writes the same
  two texts. In particular a second cycle, run on the world the first one left, with
  the input file distinct from the two destinations, leaves every file as it is.
\<close>

theorem process_log_idempotent:
  assumes "process_log inp wfile cfile w = Inr w'"
  shows "(inp \<noteq> wfile \<and> inp \<noteq> cfile \<longrightarrow> process_log inp wfile cfile w' = Inr w') \<and>
         (files w2 inp = files w inp \<and> \<not> unwritable w2 wfile \<and> \<not> unwritable w2 cfile \<longrightarrow>
            (\<exists>w2'. process_log inp wfile cfile w2 = Inr w2' \<and>
               files w2' wfile = files w' wfile \<and> files w2' cfile = files w' cfile))"
proof -
  from assms obtain content where f: "files w inp = Some content"
    by (auto simp: process_log_def split: option.splits)
  let ?wt = "csv_text WORKER_CSV_HEADER (rows_of ''worker'' (file_lines content))"
  let ?ct = "csv_text CONTROLLER_CSV_HEADER (rows_of ''controller'' (file_lines content))"
  from assms f have u: "\<not> unwritable w wfile" "\<not> unwritable w cfile"
    and w': "w' = w\<lparr>files := (files w)(wfile \<mapsto> ?wt, cfile \<mapsto> ?ct)\<rparr>"
    by (auto simp: process_log_eq split: if_splits)
  have again: "process_log inp wfile cfile w' = Inr w'" if d: "inp \<noteq> wfile \<and> inp \<noteq> cfile"
  proof -
    have "files w' inp = Some content" using d f by (simp add: w')
    moreover have "\<not> unwritable w' wfile" "\<not> unwritable w' cfile" using u by (simp_all add: w')
    moreover have "w'\<lparr>files := (files w')(wfile \<mapsto> ?wt, cfile \<mapsto> ?ct)\<rparr> = w'"
      by (simp add: w' fun_eq_iff)
    ultimately show ?thesis by (simp add: process_log_eq)
  qed
  have other: "\<exists>w2'. process_log inp wfile cfile w2 = Inr w2' \<and>
               files w2' wfile = files w' wfile \<and> files w2' cfile = files w' cfile"
    if a: "files w2 inp = files w inp \<and> \<not> unwritable w2 wfile \<and> \<not> unwritable w2 cfile"
  proof -
    let ?w2' = "w2\<lparr>files := (files w2)(wfile \<mapsto> ?wt, cfile \<mapsto> ?ct)\<rparr>"
    have "process_log inp wfile cfile w2 = Inr ?w2'" using a f by (simp add: process_log_eq)
    moreover have "files ?w2' wfile = files w' wfile" by (simp add: w')
    moreover have "files ?w2' cfile = files w' cfile" by (simp add: w')
    ultimately show ?thesis by blast
  qed
  from again other show ?thesis by blast
qed

theorem process_log_idempotent_witness:
  "\<exists>w'. process_log ''nonMem.log'' ''worker.csv'' ''controller.csv''
          \<lparr>files = [''nonMem.log'' \<mapsto> ''12 instruments: 9,8,7,6,5,4,3,2,1,0,9'' @ [LF]],
            unwritable = (\<lambda>p. False), now_year = 2024\<rparr> = Inr w' \<and>
        process_log ''nonMem.log'' ''worker.csv'' ''controller.csv'' w' = Inr w' \<and>
        (\<exists>w2'. process_log ''nonMem.log'' ''worker.csv'' ''controller.csv''
            \<lparr>files = [''nonMem.log'' \<mapsto> ''12 instruments: 9,8,7,6,5,4,3,2,1,0,9'' @ [LF],
                       ''worker.csv'' \<mapsto> ''something else''],
              unwritable = (\<lambda>p. False), now_year = 2031\<rparr> = Inr w2' \<and>
           files w2' ''worker.csv'' = files w' ''worker.csv'' \<and>
           files w2' ''controller.csv'' = files w' ''controller.csv'')"
proof -
  let ?content = "''12 instruments: 9,8,7,6,5,4,3,2,1,0,9'' @ [LF]"
  let ?w = "\<lparr>files = [''nonMem.log'' \<mapsto> ?content], unwritable = (\<lambda>p. False), now_year = 2024\<rparr>"
  let ?w2 = "\<lparr>files = [''nonMem.log'' \<mapsto> ?content, ''worker.csv'' \<mapsto> ''something else''],
              unwritable = (\<lambda>p. False), now_year = 2031\<rparr>"
  obtain w' where p: "process_log ''nonMem.log'' ''worker.csv'' ''controller.csv'' ?w = Inr w'"
    by (simp add: process_log_def process_lines_rows write_logs_to_file_eq)
  have d: "''nonMem.log'' \<noteq> ''worker.csv'' \<and> ''nonMem.log'' \<noteq> ''controller.csv''" by simp
  have a: "files ?w2 ''nonMem.log'' = files ?w ''nonMem.log'' \<and>
      \<not> unwritable ?w2 ''worker.csv'' \<and> \<not> unwritable ?w2 ''controller.csv''" by simp
  from process_log_idempotent [OF p, of ?w2] d a p show ?thesis by blast
qed

text \<open>
  Claim C8. \<^verbatim>\<open>convert_to_unix_timestamp\<close> is the only reader of the clock and
  \<^verbatim>\<open>process_log\<close> does not call it: a cycle run under another date gives the same
  result, file for file, while the conversion does return the seconds of the date moved
  to the current year. The timestamp of a row is the decimal numeral of the counter read
  from the digits at the start of the line.
\<close>

theorem clock_not_used:
  "process_log inp wfile cfile (w\<lparr>now_year := y\<rparr>) =
     (case process_log inp wfile cfile w of
        Inl e \<Rightarrow> Inl e
      | Inr w' \<Rightarrow> Inr (w'\<lparr>now_year := y\<rparr>)) \<and>
   (parse_log_line line = Inr (Some (key, ts, data)) \<longrightarrow>
      ts = int (decimal_value (takeWhile is_digit line)) \<and>
      log_entry ts data =
        str_nat (decimal_value (takeWhile is_digit line)) @ '', '' @ strip (escape_quotes data)) \<and>
   (strptime s ''%b %d %H:%M:%S'' = Inr dt \<and> 1 \<le> y \<and> y \<le> 9999 \<and>
    day dt \<le> days_in_month y (month dt) \<longrightarrow>
      convert_to_unix_timestamp strptime timestamp (w\<lparr>now_year := y\<rparr>) s =
        Inr (timestamp (dt\<lparr>year := y\<rparr>)))"
proof (intro conjI impI)
  show "process_log inp wfile cfile (w\<lparr>now_year := y\<rparr>) =
     (case process_log inp wfile cfile w of
        Inl e \<Rightarrow> Inl e
      | Inr w' \<Rightarrow> Inr (w'\<lparr>now_year := y\<rparr>))"
    by (simp add: process_log_eq split: option.splits)
next
  assume p: "parse_log_line line = Inr (Some (key, ts, data))"
  from parse_log_line_SomeD [OF p] obtain ds where m: "re_match line = Some (ds, data)"
    and ts: "ts = int (decimal_value ds)" by blast
  from m have ds: "ds = takeWhile is_digit line"
    by (auto simp: re_match_def Let_def split: if_splits)
  show "ts = int (decimal_value (takeWhile is_digit line))" using ts ds by simp
  then show "log_entry ts data =
        str_nat (decimal_value (takeWhile is_digit line)) @ '', '' @ strip (escape_quotes data)"
    by (simp add: log_entry_eq str_int_nat)
next
  assume "strptime s ''%b %d %H:%M:%S'' = Inr dt \<and> 1 \<le> y \<and> y \<le> 9999 \<and>
    day dt \<le> days_in_month y (month dt)"
  then show "convert_to_unix_timestamp strptime timestamp (w\<lparr>now_year := y\<rparr>) s =
        Inr (timestamp (dt\<lparr>year := y\<rparr>))"
    by (simp add: convert_to_unix_timestamp_def replace_year_def)
qed

theorem clock_not_used_witness:
  "process_log ''nonMem.log'' ''worker.csv'' ''controller.csv''
      (\<lparr>files = [''nonMem.log'' \<mapsto> ''12 instruments: 9,8,7,6,5,4,3,2,1,0,9'' @ [LF]],
        unwritable = (\<lambda>p. False), now_year = 2024\<rparr>\<lparr>now_year := 2031\<rparr>) =
     (case process_log ''nonMem.log'' ''worker.csv'' ''controller.csv''
             \<lparr>files = [''nonMem.log'' \<mapsto> ''12 instruments: 9,8,7,6,5,4,3,2,1,0,9'' @ [LF]],
               unwritable = (\<lambda>p. False), now_year = 2024\<rparr> of
        Inl e \<Rightarrow> Inl e
      | Inr w' \<Rightarrow> Inr (w'\<lparr>now_year := 2031\<rparr>)) \<and>
   parse_log_line (''12 instruments: 9,8,7,6,5,4,3,2,1,0,9'' @ [LF]) =
     Inr (Some (''worker'', 12, ''9,8,7,6,5,4,3,2,1,0,9'')) \<and>
   log_entry 12 ''9,8,7,6,5,4,3,2,1,0,9'' = ''12, 9,8,7,6,5,4,3,2,1,0,9'' \<and>
   convert_to_unix_timestamp
      (\<lambda>s f. if s = ''Jan 02 03:04:05'' \<and> f = ''%b %d %H:%M:%S''
              then Inr \<lparr>year = 1900, month = 1, day = 2, hour = 3, minute = 4, second = 5\<rparr>
              else Inl ValueError)
      (\<lambda>dt. (((year dt - 1970) * 365 + day dt) * 24 + hour dt) * 3600)
      (\<lparr>files = Map.empty, unwritable = (\<lambda>p. False), now_year = 2024\<rparr>\<lparr>now_year := 2031\<rparr>)
      ''Jan 02 03:04:05'' = Inr 1923879600"
proof -
  let ?w = "\<lparr>files = [''nonMem.log'' \<mapsto> ''12 instruments: 9,8,7,6,5,4,3,2,1,0,9'' @ [LF]],
        unwritable = (\<lambda>p. False), now_year = 2024\<rparr>"
  let ?v = "\<lparr>files = Map.empty, unwritable = (\<lambda>p. False), now_year = 2024\<rparr>"
  let ?strptime = "\<lambda>s f. if s = ''Jan 02 03:04:05'' \<and> f = ''%b %d %H:%M:%S''
              then Inr \<lparr>year = 1900, month = 1, day = 2, hour = 3, minute = 4, second = 5\<rparr>
              else Inl ValueError"
  let ?timestamp = "\<lambda>dt. (((year dt - 1970) * 365 + day dt) * 24 + hour dt) * 3600"
  let ?dt = "\<lparr>year = 1900, month = 1, day = 2, hour = 3, minute = 4, second = 5\<rparr>"
  have p: "parse_log_line (''12 instruments: 9,8,7,6,5,4,3,2,1,0,9'' @ [LF]) =
     Inr (Some (''worker'', 12, ''9,8,7,6,5,4,3,2,1,0,9''))" by code_simp
  have e: "str_nat (decimal_value (takeWhile is_digit (''12 instruments: 9,8,7,6,5,4,3,2,1,0,9'' @ [LF]))) @
      '', '' @ strip (escape_quotes ''9,8,7,6,5,4,3,2,1,0,9'') = ''12, 9,8,7,6,5,4,3,2,1,0,9''"
    by code_simp
  have h: "?strptime ''Jan 02 03:04:05'' ''%b %d %H:%M:%S'' = Inr ?dt \<and> (1::int) \<le> 2031 \<and>
      (2031::int) \<le> 9999 \<and> day ?dt \<le> days_in_month 2031 (month ?dt)"
    by (simp add: days_in_month_def)
  note t1 = clock_not_used [where w = ?w and y = 2031 and inp = "''nonMem.log''"
      and wfile = "''worker.csv''" and cfile = "''controller.csv''"
      and line = "''12 instruments: 9,8,7,6,5,4,3,2,1,0,9'' @ [LF]"
      and key = "''worker''" and ts = 12 and data = "''9,8,7,6,5,4,3,2,1,0,9''"]
  note t2 = clock_not_used [where w = ?v and y = 2031 and strptime = ?strptime
      and timestamp = ?timestamp and s = "''Jan 02 03:04:05''" and dt = ?dt]
  from t1 have a: "process_log ''nonMem.log'' ''worker.csv'' ''controller.csv'' (?w\<lparr>now_year := 2031\<rparr>) =
     (case process_log ''nonMem.log'' ''worker.csv'' ''controller.csv'' ?w of
        Inl e \<Rightarrow> Inl e
      | Inr w' \<Rightarrow> Inr (w'\<lparr>now_year := 2031\<rparr>))" by (rule conjunct1)
  from t1 p have "log_entry 12 ''9,8,7,6,5,4,3,2,1,0,9'' =
      str_nat (decimal_value (takeWhile is_digit (''12 instruments: 9,8,7,6,5,4,3,2,1,0,9'' @ [LF]))) @
      '', '' @ strip (escape_quotes ''9,8,7,6,5,4,3,2,1,0,9'')" by blast
  from this e have b: "log_entry 12 ''9,8,7,6,5,4,3,2,1,0,9'' = ''12, 9,8,7,6,5,4,3,2,1,0,9''"
    by (rule trans)
  from t2 h have "convert_to_unix_timestamp ?strptime ?timestamp (?v\<lparr>now_year := 2031\<rparr>)
      ''Jan 02 03:04:05'' = Inr (?timestamp (?dt\<lparr>year := 2031\<rparr>))" by blast
  then have c: "convert_to_unix_timestamp ?strptime ?timestamp (?v\<lparr>now_year := 2031\<rparr>)
      ''Jan 02 03:04:05'' = Inr 1923879600" by simp
  from a p b c show ?thesis by blast
qed



text \<open>
  Claim C10. The digits at the start of a classified line are zeros followed by the
  canonical decimal numeral of the timestamp (no leading zero, or the single digit 0),
  and the row starts with that canonical numeral: leading zeros of the line are not
  carried into the row, since the digits go through \<^verbatim>\<open>int\<close> before they are formatted.
\<close>

theorem leading_zeros_dropped:
  assumes "parse_log_line line = Inr (Some (key, ts, data))"
  shows "\<exists>zs tail. list_all (\<lambda>c. c = CHR ''0'') zs \<and>
           line = zs @ str_int ts @ '' instruments: '' @ data @ tail \<and>
           (str_int ts = ''0'' \<or> hd (str_int ts) \<noteq> CHR ''0'') \<and>
           log_entry ts data = str_int ts @ '', '' @ strip (escape_quotes data)"
proof -
  from parse_log_line_SomeD [OF assms] obtain ds where m: "re_match line = Some (ds, data)"
    and ts: "ts = int (decimal_value ds)" by blast
  from re_match_SomeD [OF m] obtain tail where l: "line = ds @ marker @ data @ tail"
    and ds: "ds \<noteq> []" "list_all is_digit ds" by blast
  from digits_canonical [OF ds] obtain zs where zs: "list_all (\<lambda>c. c = CHR ''0'') zs"
    and c: "ds = zs @ str_nat (decimal_value ds)" by blast
  have s: "str_int ts = str_nat (decimal_value ds)" by (simp add: ts str_int_nat)
  have "line = zs @ str_int ts @ '' instruments: '' @ data @ tail"
    using l c by (simp add: s marker_def)
  moreover have "str_int ts = ''0'' \<or> hd (str_int ts) \<noteq> CHR ''0''"
    unfolding s by (rule str_nat_canonical)
  ultimately show ?thesis using zs log_entry_eq [of ts data] by blast
qed

theorem leading_zeros_dropped_witness:
  "parse_log_line ''007 instruments: 1,2,3,4,5,6,7,8,9,10,11'' =
     Inr (Some (''worker'', 7, ''1,2,3,4,5,6,7,8,9,10,11'')) \<and>
   str_int 7 = ''7'' \<and>
   process_lines [''007 instruments: 1,2,3,4,5,6,7,8,9,10,11''] ([], []) =
     Inr ([''7, 1,2,3,4,5,6,7,8,9,10,11''], []) \<and>
   (\<exists>zs tail. list_all (\<lambda>c. c = CHR ''0'') zs \<and>
      ''007 instruments: 1,2,3,4,5,6,7,8,9,10,11'' =
        zs @ ''7'' @ '' instruments: '' @ ''1,2,3,4,5,6,7,8,9,10,11'' @ tail \<and>
      log_entry 7 ''1,2,3,4,5,6,7,8,9,10,11'' =
        ''7'' @ '', '' @ strip (escape_quotes ''1,2,3,4,5,6,7,8,9,10,11''))"
proof -
  have p: "parse_log_line ''007 instruments: 1,2,3,4,5,6,7,8,9,10,11'' =
     Inr (Some (''worker'', 7, ''1,2,3,4,5,6,7,8,9,10,11''))" by code_simp
  have s: "str_int 7 = ''7''" by code_simp
  have r: "process_lines [''007 instruments: 1,2,3,4,5,6,7,8,9,10,11''] ([], []) =
     Inr ([''7, 1,2,3,4,5,6,7,8,9,10,11''], [])" by code_simp
  from leading_zeros_dropped [OF p]
  have "\<exists>zs tail. list_all (\<lambda>c. c = CHR ''0'') zs \<and>
      ''007 instruments: 1,2,3,4,5,6,7,8,9,10,11'' =
        zs @ ''7'' @ '' instruments: '' @ ''1,2,3,4,5,6,7,8,9,10,11'' @ tail \<and>
      log_entry 7 ''1,2,3,4,5,6,7,8,9,10,11'' =
        ''7'' @ '', '' @ strip (escape_quotes ''1,2,3,4,5,6,7,8,9,10,11'')"
    unfolding s by blast
  with p s r show ?thesis by blast
qed

end
